theory Spec2Isabelle
  imports Main "HOL-Library.Sublist" "HOL-Library.AList" "HOL-Library.Char_ord"
    "HOL-Library.List_Lexorder"
begin

section \<open>Text and the character classes\<close>

text \<open>
  A Python \<^verbatim>\<open>str\<close> is a sequence of Unicode code points, so a text is a list of
  code points and its length is the number of code points.
\<close>

type_synonym codepoint = nat
type_synonym str = "codepoint list"

abbreviation NL :: codepoint where "NL \<equiv> 0x0A"
abbreviation SP :: codepoint where "SP \<equiv> 0x20"

text \<open>A regular-expression character class: a union of inclusive ranges.\<close>

fun in_class :: "(codepoint \<times> codepoint) list \<Rightarrow> codepoint \<Rightarrow> bool" where
  "in_class [] c = False"
| "in_class ((lo, hi) # rs) c = ((lo \<le> c \<and> c \<le> hi) \<or> in_class rs c)"

text \<open>The class of \<^verbatim>\<open>EMOJI_PATTERN\<close>, range by range in the order of the source.\<close>

definition EMOJI_RANGES :: "(codepoint \<times> codepoint) list" where
  "EMOJI_RANGES =
    [(0x1F1E0, 0x1F1FF),
     (0x1F300, 0x1F5FF),
     (0x1F600, 0x1F64F),
     (0x1F680, 0x1F6FF),
     (0x1F700, 0x1F77F),
     (0x1F780, 0x1F7FF),
     (0x1F800, 0x1F8FF),
     (0x1F900, 0x1F9FF),
     (0x1FA00, 0x1FA6F),
     (0x1FA70, 0x1FAFF),
     (0x2702, 0x27B0),
     (0x24C2, 0x1F251),
     (0x1F300, 0x1F5FF),
     (0x1F600, 0x1F636),
     (0x1F681, 0x1F6C5),
     (0x1F30D, 0x1F567),
     (0x2600, 0x2B55),
     (0x200D, 0x200D),
     (0xFE0F, 0xFE0F)]"

definition is_emoji :: "codepoint \<Rightarrow> bool" where
  "is_emoji c = in_class EMOJI_RANGES c"

text \<open>
  The code points that Python's \<^verbatim>\<open>str.strip\<close>, \<^verbatim>\<open>lstrip\<close> and \<^verbatim>\<open>rstrip\<close> remove when
  called without an argument (those for which \<^verbatim>\<open>str.isspace\<close> holds). The table
  belongs to the Python runtime, not to the repository.
\<close>

definition WHITESPACE :: "(codepoint \<times> codepoint) list" where
  "WHITESPACE =
    [(0x09, 0x0D), (0x1C, 0x1F), (0x20, 0x20), (0x85, 0x85), (0xA0, 0xA0),
     (0x1680, 0x1680), (0x2000, 0x200A), (0x2028, 0x2029), (0x202F, 0x202F),
     (0x205F, 0x205F), (0x3000, 0x3000)]"

definition isspace :: "codepoint \<Rightarrow> bool" where
  "isspace c = in_class WHITESPACE c"

section \<open>The string operations the cleaner calls\<close>

definition str_rstrip :: "str \<Rightarrow> str" where
  "str_rstrip s = rev (dropWhile isspace (rev s))"

definition str_lstrip :: "str \<Rightarrow> str" where
  "str_lstrip s = dropWhile isspace s"

definition str_strip :: "str \<Rightarrow> str" where
  "str_strip s = str_lstrip (str_rstrip s)"

text \<open>\<^verbatim>\<open>s.split(sep)\<close> for a one-character separator: never an empty list.\<close>

fun str_split :: "codepoint \<Rightarrow> str \<Rightarrow> str list" where
  "str_split sep [] = [[]]"
| "str_split sep (c # cs) =
     (if c = sep then [] # str_split sep cs
      else (case str_split sep cs of
              [] \<Rightarrow> [[c]]
            | l # ls \<Rightarrow> (c # l) # ls))"

text \<open>\<^verbatim>\<open>sep.join(lines)\<close>.\<close>

fun str_join :: "codepoint \<Rightarrow> str list \<Rightarrow> str" where
  "str_join sep [] = []"
| "str_join sep [l] = l"
| "str_join sep (l # ls) = l @ sep # str_join sep ls"

text \<open>
  \<^verbatim>\<open>EMOJI_PATTERN.sub('', text)\<close>: the scan goes left to right; where the class
  matches, the greedy \<^verbatim>\<open>+\<close> consumes the whole run and the run is replaced by the
  empty string; any other character is copied.
\<close>

function EMOJI_PATTERN_sub :: "str \<Rightarrow> str" where
  "EMOJI_PATTERN_sub [] = []"
| "EMOJI_PATTERN_sub (c # cs) =
     (if is_emoji c then EMOJI_PATTERN_sub (dropWhile is_emoji cs)
      else c # EMOJI_PATTERN_sub cs)"
  by pat_completeness auto
termination
  by (relation "measure length") (auto simp: le_imp_less_Suc length_dropWhile_le)

text \<open>
  \<^verbatim>\<open>EMOJI_PATTERN.findall(text)\<close>: the list of the non-overlapping matches, left to
  right, each match being the run the greedy \<^verbatim>\<open>+\<close> consumed.
\<close>

function EMOJI_PATTERN_findall :: "str \<Rightarrow> str list" where
  "EMOJI_PATTERN_findall [] = []"
| "EMOJI_PATTERN_findall (c # cs) =
     (if is_emoji c
      then (c # takeWhile is_emoji cs) # EMOJI_PATTERN_findall (dropWhile is_emoji cs)
      else EMOJI_PATTERN_findall cs)"
  by pat_completeness auto
termination
  by (relation "measure length") (auto simp: le_imp_less_Suc length_dropWhile_le)

text \<open>
  \<^verbatim>\<open>re.sub(r' {2,}', ' ', content)\<close>: a match needs two spaces at the position of
  the scan and consumes every space that follows; it is replaced by one space.
\<close>

function re_sub_spaces :: "str \<Rightarrow> str" where
  "re_sub_spaces [] = []"
| "re_sub_spaces (c # cs) =
     (if c = SP \<and> takeWhile (\<lambda>x. x = SP) cs \<noteq> []
      then SP # re_sub_spaces (dropWhile (\<lambda>x. x = SP) cs)
      else c # re_sub_spaces cs)"
  by pat_completeness auto
termination
  by (relation "measure length") (auto simp: le_imp_less_Suc length_dropWhile_le)

section \<open>The text cleaner\<close>

text \<open>The body of the loop over the lines in \<^verbatim>\<open>remove_emojis_from_text\<close>.\<close>

definition clean_line :: "str \<Rightarrow> str" where
  "clean_line line0 =
     (let line = str_rstrip line0 in
      if str_strip line \<noteq> [] then
        (let leading_spaces = length line - length (str_lstrip line);
             content = str_lstrip line;
             content' = re_sub_spaces content
         in replicate leading_spaces SP @ content')
      else line)"

definition remove_emojis_from_text :: "str \<Rightarrow> str" where
  "remove_emojis_from_text txt =
     (let cleaned = EMOJI_PATTERN_sub txt
      in str_join NL (map clean_line (str_split NL cleaned)))"

text \<open>
  \<^verbatim>\<open>emoji_count = len(EMOJI_PATTERN.findall(original_content))\<close>, the count that
  \<^verbatim>\<open>process_markdown_file\<close> reports.
\<close>

definition emoji_count_of :: "str \<Rightarrow> nat" where
  "emoji_count_of original_content = length (EMOJI_PATTERN_findall original_content)"

section \<open>Paths and the file system\<close>

text \<open>
  A path is the tuple \<^verbatim>\<open>Path.parts\<close> of its components. Paths compare as pathlib
  compares them: component by component, each component as a string.
\<close>

type_synonym path = "string list"

text \<open>
  What the program can observe of a directory entry: a directory, or a regular file
  with its permissions and the text \<^verbatim>\<open>f.read()\<close> returns for it, decoded and with
  the line ends translated (\<open>None\<close> when the bytes are not valid UTF-8). The list
  order is the order in which the directory walk meets the entries.
\<close>

datatype node = Directory | RegularFile (readable: bool) (writable: bool) (decoded: "str option")

type_synonym filesystem = "(path \<times> node) list"

datatype exn =
  FileNotFoundError | IsADirectoryError | PermissionError | UnicodeDecodeError | ValueError

text \<open>\<^verbatim>\<open>with open(file_path, 'r', encoding='utf-8') as f: f.read()\<close>\<close>

definition read_text :: "filesystem \<Rightarrow> path \<Rightarrow> exn + str" where
  "read_text fs file_path =
     (case map_of fs file_path of
        None \<Rightarrow> Inl FileNotFoundError
      | Some Directory \<Rightarrow> Inl IsADirectoryError
      | Some (RegularFile r w d) \<Rightarrow>
          if \<not> r then Inl PermissionError
          else (case d of None \<Rightarrow> Inl UnicodeDecodeError | Some t \<Rightarrow> Inr t))"

text \<open>
  \<^verbatim>\<open>with open(file_path, 'w', encoding='utf-8') as f: f.write(content)\<close>: the open
  fails on a directory or without write permission and then leaves the file as it
  was; otherwise the content is replaced.
\<close>

definition write_text :: "filesystem \<Rightarrow> path \<Rightarrow> str \<Rightarrow> exn + filesystem" where
  "write_text fs file_path content =
     (case map_of fs file_path of
        None \<Rightarrow> Inr (AList.update file_path (RegularFile True True (Some content)) fs)
      | Some Directory \<Rightarrow> Inl IsADirectoryError
      | Some (RegularFile r w d) \<Rightarrow>
          if \<not> w then Inl PermissionError
          else Inr (AList.update file_path (RegularFile r w (Some content)) fs))"

text \<open>What the program prints, line by line (the decorative lines are left out).\<close>

datatype out_line =
    Found nat
  | Removed bool nat path
  | Summary nat nat nat
  | FileModified path nat
  | NoteDryRun
  | Success
  | Info
  | Usage

record world =
  files :: filesystem
  stdout :: "out_line list"
  stderr :: "(path \<times> exn) list"

section \<open>Processing one file\<close>

text \<open>The body of the \<^verbatim>\<open>try\<close> block of \<^verbatim>\<open>process_markdown_file\<close>.\<close>

definition process_body :: "filesystem \<Rightarrow> path \<Rightarrow> bool \<Rightarrow> exn + (filesystem \<times> bool \<times> nat)" where
  "process_body fs file_path dry_run =
     (case read_text fs file_path of
        Inl e \<Rightarrow> Inl e
      | Inr original_content \<Rightarrow>
          (let emoji_count = emoji_count_of original_content in
           if emoji_count = 0 then Inr (fs, False, 0)
           else
             (let cleaned_content = remove_emojis_from_text original_content in
              if original_content = cleaned_content then Inr (fs, False, 0)
              else if \<not> dry_run then
                (case write_text fs file_path cleaned_content of
                   Inl e \<Rightarrow> Inl e
                 | Inr fs' \<Rightarrow> Inr (fs', True, emoji_count))
              else Inr (fs, True, emoji_count))))"

text \<open>The whole function: \<^verbatim>\<open>except Exception\<close> prints to stderr and returns \<^verbatim>\<open>(False, 0)\<close>.\<close>

definition process_markdown_file :: "world \<Rightarrow> path \<Rightarrow> bool \<Rightarrow> world \<times> bool \<times> nat" where
  "process_markdown_file w file_path dry_run =
     (case process_body (files w) file_path dry_run of
        Inr (fs', r) \<Rightarrow> (w\<lparr>files := fs'\<rparr>, r)
      | Inl e \<Rightarrow> (w\<lparr>stderr := stderr w @ [(file_path, e)]\<rparr>, False, 0))"

section \<open>Finding the files\<close>

text \<open>\<^verbatim>\<open>fnmatch(name, '*.md')\<close>\<close>

definition endswith_md :: "string \<Rightarrow> bool" where
  "endswith_md name = (drop (length name - 3) name = ''.md'')"

text \<open>
  \<^verbatim>\<open>root_dir.rglob('*.md')\<close>: every entry below \<^verbatim>\<open>root_dir\<close>, of any kind, whose
  name matches the pattern, in the order of the walk.
\<close>

definition rglob_md :: "filesystem \<Rightarrow> path \<Rightarrow> path list" where
  "rglob_md fs root_dir =
     filter (\<lambda>p. strict_prefix root_dir p \<and> endswith_md (last p)) (map fst fs)"

definition DEFAULT_EXCLUDE_DIRS :: "string list" where
  "DEFAULT_EXCLUDE_DIRS = [''node_modules'', ''.git'', ''dist'', ''build'', ''.next'', ''coverage'']"

definition find_markdown_files :: "filesystem \<Rightarrow> path \<Rightarrow> string list option \<Rightarrow> path list" where
  "find_markdown_files fs root_dir exclude_dirs0 =
     (let exclude_dirs = (case exclude_dirs0 of None \<Rightarrow> DEFAULT_EXCLUDE_DIRS | Some e \<Rightarrow> e);
          markdown_files =
            filter (\<lambda>md_file. \<not> list_ex (\<lambda>excluded. excluded \<in> set md_file) exclude_dirs)
              (rglob_md fs root_dir)
      in sort markdown_files)"

section \<open>The run\<close>






section \<open>Notions of the specification\<close>

text \<open>
  A collapsible run: two plain spaces next to each other.
\<close>

fun has_double_space :: "str \<Rightarrow> bool" where
  "has_double_space (a # b # cs) = ((a = SP \<and> b = SP) \<or> has_double_space (b # cs))"
| "has_double_space cs = False"

text \<open>
  The number of maximal runs of emoji code points, counted as the specification
  describes them and not by the scan of the pattern: a run starts at every emoji
  code point that has no emoji code point right before it. The flag says whether the
  previous code point was one.
\<close>

fun run_starts :: "bool \<Rightarrow> str \<Rightarrow> nat" where
  "run_starts prev [] = 0"
| "run_starts prev (c # cs) =
     (if is_emoji c \<and> \<not> prev then 1 else 0) + run_starts (is_emoji c) cs"

definition maximal_runs :: "str \<Rightarrow> nat" where
  "maximal_runs t = run_starts False t"




text \<open>Every whitespace character but the newline seen as a plain space.\<close>

definition blank_out :: "codepoint \<Rightarrow> codepoint" where
  "blank_out c = (if isspace c \<and> c \<noteq> NL then SP else c)"

section \<open>Facts about the string operations\<close>

lemma sub_filter: "EMOJI_PATTERN_sub t = filter (\<lambda>c. \<not> is_emoji c) t"
proof (induction t rule: EMOJI_PATTERN_sub.induct)
  case 1 show ?case by simp
next
  case (2 c cs)
  show ?case
  proof (cases "is_emoji c")
    case True
    have "filter (\<lambda>c. \<not> is_emoji c) cs = filter (\<lambda>c. \<not> is_emoji c) (dropWhile is_emoji cs)"
      by (induction cs) auto
    with 2 True show ?thesis by simp
  next
    case False
    with 2 show ?thesis by simp
  qed
qed

lemma not_emoji_SP: "\<not> is_emoji SP" by (simp add: is_emoji_def EMOJI_RANGES_def)
lemma not_emoji_NL: "\<not> is_emoji NL" by (simp add: is_emoji_def EMOJI_RANGES_def)
lemma isspace_SP: "isspace SP" by (simp add: isspace_def WHITESPACE_def)

lemma join_Cons_Cons: "str_join sep ((a # l) # ls) = a # str_join sep (l # ls)"
  by (cases ls) simp_all

lemma join_Nil_Cons: "ls \<noteq> [] \<Longrightarrow> str_join sep ([] # ls) = sep # str_join sep ls"
  by (cases ls) simp_all

lemma split_ne: "str_split sep t \<noteq> []"
  by (cases t) (auto split: list.splits)

lemma join_split: "str_join sep (str_split sep t) = t"
  by (induction t) (auto split: list.splits simp: join_Cons_Cons join_Nil_Cons split_ne)

lemma split_nosep: "l \<in> set (str_split sep t) \<Longrightarrow> sep \<notin> set l"
  by (induction t arbitrary: l) (auto split: list.splits if_splits)

lemma split_join: "ls \<noteq> [] \<Longrightarrow> \<forall>l\<in>set ls. sep \<notin> set l \<Longrightarrow> str_split sep (str_join sep ls) = ls"
proof (induction sep ls rule: str_join.induct)
  case (1 sep) then show ?case by simp
next
  case (2 sep l)
  then have "sep \<notin> set l" by simp
  then show ?case by (induction l) (auto split: list.splits)
next
  case (3 sep l v va)
  then have IH: "str_split sep (str_join sep (v # va)) = v # va" by simp
  from 3 have "sep \<notin> set l" by simp
  then show ?case using IH by (induction l) (auto split: list.splits)
qed

section \<open>Facts about one line\<close>

lemma rstrip_fixed: "s = [] \<or> \<not> isspace (last s) \<Longrightarrow> str_rstrip s = s"
proof (cases s rule: rev_cases)
  case Nil then show ?thesis by (simp add: str_rstrip_def)
next
  case (snoc ys y)
  assume "s = [] \<or> \<not> isspace (last s)"
  with snoc show ?thesis by (simp add: str_rstrip_def)
qed

lemma rstrip_last: "str_rstrip s \<noteq> [] \<Longrightarrow> \<not> isspace (last (str_rstrip s))"
proof -
  assume a: "str_rstrip s \<noteq> []"
  then have ne: "dropWhile isspace (rev s) \<noteq> []" by (simp add: str_rstrip_def)
  then have "\<not> isspace (hd (dropWhile isspace (rev s)))" by (rule hd_dropWhile)
  with ne show ?thesis by (simp add: str_rstrip_def last_rev)
qed

lemma rstrip_decomp: "\<exists>tr. s = str_rstrip s @ tr \<and> (\<forall>c\<in>set tr. isspace c)"
proof -
  have "rev s = takeWhile isspace (rev s) @ dropWhile isspace (rev s)" by simp
  then have "s = rev (dropWhile isspace (rev s)) @ rev (takeWhile isspace (rev s))"
    by (metis rev_append rev_rev_ident)
  moreover have "\<forall>c\<in>set (rev (takeWhile isspace (rev s))). isspace c"
    by (auto dest: set_takeWhileD)
  ultimately show ?thesis unfolding str_rstrip_def by blast
qed

lemma rstrip_all_space: "str_lstrip (str_rstrip s) = [] \<Longrightarrow> str_rstrip s = []"
proof (rule ccontr)
  assume a: "str_lstrip (str_rstrip s) = []" and ne: "str_rstrip s \<noteq> []"
  from a have "\<forall>c\<in>set (str_rstrip s). isspace c"
    by (simp add: str_lstrip_def)
  moreover from ne have "last (str_rstrip s) \<in> set (str_rstrip s)" by simp
  ultimately show False using rstrip_last[OF ne] by blast
qed

lemma rstrip_idem: "str_rstrip (str_rstrip s) = str_rstrip s"
  using rstrip_last[of s] by (intro rstrip_fixed) blast

lemma clean_line_alt:
  "clean_line l = replicate (length (takeWhile isspace (str_rstrip l))) SP
                  @ re_sub_spaces (dropWhile isspace (str_rstrip l))"
proof (cases "str_lstrip (str_rstrip l) = []")
  case True
  then have "str_rstrip l = []" by (rule rstrip_all_space)
  then show ?thesis by (simp add: clean_line_def Let_def str_strip_def str_lstrip_def rstrip_idem)
next
  case False
  have "length (str_rstrip l) - length (dropWhile isspace (str_rstrip l))
        = length (takeWhile isspace (str_rstrip l))"
  proof -
    have "length (takeWhile isspace (str_rstrip l) @ dropWhile isspace (str_rstrip l))
          = length (str_rstrip l)" by simp
    then show ?thesis by (simp del: takeWhile_dropWhile_id)
  qed
  with False show ?thesis
    by (simp add: clean_line_def Let_def str_strip_def str_lstrip_def rstrip_idem)
qed

lemma collapse_Nil_iff: "re_sub_spaces c = [] \<longleftrightarrow> c = []"
  by (cases c) auto

lemma collapse_hd: "c \<noteq> [] \<Longrightarrow> hd (re_sub_spaces c) = hd c"
  by (cases c) auto

lemma collapse_last: "c \<noteq> [] \<Longrightarrow> last (re_sub_spaces c) = last c"
proof (induction c rule: re_sub_spaces.induct)
  case 1 then show ?case by simp
next
  case (2 c cs)
  show ?case
  proof (cases "c = SP \<and> takeWhile (\<lambda>x. x = SP) cs \<noteq> []")
    case True
    show ?thesis
    proof (cases "dropWhile (\<lambda>x. x = SP) cs = []")
      case dn: True
      then have "\<forall>x\<in>set cs. x = SP" by simp
      moreover from True have "cs \<noteq> []" by auto
      ultimately have "last cs = SP" using last_in_set by blast
      moreover have "re_sub_spaces (c # cs) = [SP]" using True by (simp add: dn)
      ultimately show ?thesis using \<open>cs \<noteq> []\<close> by simp
    next
      case dn: False
      have "cs = takeWhile (\<lambda>x. x = SP) cs @ dropWhile (\<lambda>x. x = SP) cs" by simp
      then have "last cs = last (dropWhile (\<lambda>x. x = SP) cs)"
        using dn by (metis last_appendR)
      moreover from dn have "cs \<noteq> []" by auto
      ultimately show ?thesis using True dn 2 by (auto simp: collapse_Nil_iff)
    qed
  next
    case False
    with 2 show ?thesis by (cases cs) (auto simp: collapse_Nil_iff)
  qed
qed

lemma collapse_fixed: "\<not> has_double_space c \<Longrightarrow> re_sub_spaces c = c"
proof (induction c rule: has_double_space.induct)
  case (1 a b cs)
  then show ?case by auto
qed auto

lemma collapse_no_double: "\<not> has_double_space (re_sub_spaces c)"
proof (induction c rule: re_sub_spaces.induct)
  case 1 show ?case by simp
next
  case (2 c cs)
  show ?case
  proof (cases "c = SP \<and> takeWhile (\<lambda>x. x = SP) cs \<noteq> []")
    case True
    let ?d = "dropWhile (\<lambda>x. x = SP) cs"
    from True 2 have IH: "\<not> has_double_space (re_sub_spaces ?d)" by simp
    show ?thesis
    proof (cases ?d)
      case Nil with True show ?thesis by (simp add: Nil)
    next
      case (Cons d ds)
      then have "d \<noteq> SP" using hd_dropWhile[of "\<lambda>x. x = SP" cs] by auto
      then have "hd (re_sub_spaces ?d) \<noteq> SP" using Cons collapse_hd[of ?d] by simp
      moreover have "re_sub_spaces ?d \<noteq> []" using Cons by (simp add: collapse_Nil_iff)
      ultimately show ?thesis using True IH by (cases "re_sub_spaces ?d") auto
    qed
  next
    case False
    with 2 have IH: "\<not> has_double_space (re_sub_spaces cs)" by simp
    show ?thesis
    proof (cases cs)
      case Nil with False show ?thesis by simp
    next
      case (Cons d ds)
      have hd: "hd (re_sub_spaces cs) = d" using Cons collapse_hd[of cs] by simp
      have ne: "re_sub_spaces cs \<noteq> []" using Cons by (simp add: collapse_Nil_iff)
      from False Cons have "\<not> (c = SP \<and> d = SP)" by auto
      with False IH hd ne show ?thesis by (cases "re_sub_spaces cs") auto
    qed
  qed
qed

lemma collapse_idem: "re_sub_spaces (re_sub_spaces c) = re_sub_spaces c"
  by (rule collapse_fixed) (rule collapse_no_double)

lemma clean_line_idem: "clean_line (clean_line l) = clean_line l"
proof -
  let ?r = "str_rstrip l"
  let ?n = "length (takeWhile isspace ?r)"
  let ?content = "dropWhile isspace ?r"
  let ?k = "re_sub_spaces ?content"
  have out: "clean_line l = replicate ?n SP @ ?k" by (rule clean_line_alt)
  show ?thesis
  proof (cases "?content = []")
    case True
    then have "?r = []" using rstrip_all_space[of l] by (simp add: str_lstrip_def)
    then have "clean_line l = []" using out by simp
    moreover have "clean_line [] = []" by (simp add: clean_line_alt str_rstrip_def)
    ultimately show ?thesis by simp
  next
    case False
    then have kne: "?k \<noteq> []" by (simp add: collapse_Nil_iff)
    from False have rne: "?r \<noteq> []" by auto
    have "last ?content = last ?r"
      using False by (metis last_appendR takeWhile_dropWhile_id)
    then have "\<not> isspace (last ?content)" using rstrip_last[OF rne] by simp
    then have lastk: "\<not> isspace (last ?k)" using collapse_last[OF False] by simp
    have hdk: "\<not> isspace (hd ?k)" using collapse_hd[OF False] hd_dropWhile[OF False] by simp
    have r1: "str_rstrip (replicate ?n SP @ ?k) = replicate ?n SP @ ?k"
      using kne lastk by (intro rstrip_fixed) simp
    have tw: "takeWhile isspace (replicate ?n SP @ ?k) = replicate ?n SP"
      using kne hdk by (cases ?k) (auto simp: isspace_SP takeWhile_tail)
    have dw: "dropWhile isspace (replicate ?n SP @ ?k) = ?k"
      using kne hdk by (cases ?k) (auto simp: isspace_SP dropWhile_append3)
    have "clean_line (replicate ?n SP @ ?k) = replicate ?n SP @ re_sub_spaces ?k"
      unfolding clean_line_alt[of "replicate ?n SP @ ?k"] r1 tw dw by simp
    then show ?thesis using out by (simp add: collapse_idem)
  qed
qed

section \<open>Facts about the whole text\<close>

lemma clean_line_set: "set (clean_line l) \<subseteq> insert SP (set l)"
proof -
  have a: "set (re_sub_spaces c) \<subseteq> set c" for c
    by (induction c rule: re_sub_spaces.induct) (auto dest: set_dropWhileD)
  have b: "set (str_rstrip l) \<subseteq> set l"
    by (auto simp: str_rstrip_def dest: set_dropWhileD)
  have "set (dropWhile isspace (str_rstrip l)) \<subseteq> set l"
    using b by (auto dest: set_dropWhileD)
  with a[of "dropWhile isspace (str_rstrip l)"] show ?thesis
    unfolding clean_line_alt by auto
qed

lemma join_set: "set (str_join sep ls) \<subseteq> insert sep (\<Union> (set ` set ls))"
  by (induction sep ls rule: str_join.induct) auto

lemma cleaned_lines_no_NL:
  "\<forall>l\<in>set (map clean_line (str_split NL t)). NL \<notin> set l"
proof
  fix l assume "l \<in> set (map clean_line (str_split NL t))"
  then obtain l0 where l0: "l0 \<in> set (str_split NL t)" and l: "l = clean_line l0" by auto
  from l0 have "NL \<notin> set l0" by (rule split_nosep)
  then show "NL \<notin> set l" using clean_line_set[of l0] l by auto
qed

lemma split_of_cleaned:
  "str_split NL (remove_emojis_from_text t) = map clean_line (str_split NL (EMOJI_PATTERN_sub t))"
  unfolding remove_emojis_from_text_def Let_def
  by (rule split_join) (simp_all add: split_ne cleaned_lines_no_NL del: set_map)

lemma no_emoji_after: "\<not> is_emoji c" if "c \<in> set (remove_emojis_from_text t)"
proof -
  let ?ls = "map clean_line (str_split NL (EMOJI_PATTERN_sub t))"
  from that have "c = NL \<or> (\<exists>l\<in>set ?ls. c \<in> set l)"
    unfolding remove_emojis_from_text_def Let_def using join_set[of NL ?ls] by auto
  then show ?thesis
  proof
    assume "c = NL" then show ?thesis by (simp add: not_emoji_NL)
  next
    assume "\<exists>l\<in>set ?ls. c \<in> set l"
    then obtain l0 where l0: "l0 \<in> set (str_split NL (EMOJI_PATTERN_sub t))" and c: "c \<in> set (clean_line l0)"
      by auto
    from c have "c = SP \<or> c \<in> set l0" using clean_line_set[of l0] by auto
    moreover have "set l0 \<subseteq> set (EMOJI_PATTERN_sub t)"
    proof -
      have "set (str_join NL (str_split NL (EMOJI_PATTERN_sub t))) = set (EMOJI_PATTERN_sub t)"
        by (simp add: join_split)
      moreover have "set l \<subseteq> set (str_join sep ls)" if "l \<in> set ls" for l sep ls
        using that by (induction sep ls rule: str_join.induct) auto
      ultimately show ?thesis using l0 by blast
    qed
    ultimately show ?thesis by (auto simp: sub_filter not_emoji_SP)
  qed
qed

lemma sub_fixed: "\<forall>c\<in>set t. \<not> is_emoji c \<Longrightarrow> EMOJI_PATTERN_sub t = t"
  by (simp add: sub_filter)

lemma findall_Nil_iff: "EMOJI_PATTERN_findall t = [] \<longleftrightarrow> (\<forall>c\<in>set t. \<not> is_emoji c)"
  by (induction t rule: EMOJI_PATTERN_findall.induct) auto

lemma lstrip_clean_line: "str_lstrip (clean_line l) = re_sub_spaces (str_strip l)"
proof -
  let ?r = "str_rstrip l"
  let ?n = "length (takeWhile isspace ?r)"
  let ?content = "dropWhile isspace ?r"
  let ?k = "re_sub_spaces ?content"
  show ?thesis
  proof (cases "?content = []")
    case True
    then have "?r = []" using rstrip_all_space[of l] by (simp add: str_lstrip_def)
    then show ?thesis
      by (simp add: clean_line_alt str_lstrip_def str_strip_def)
  next
    case False
    then have kne: "?k \<noteq> []" by (simp add: collapse_Nil_iff)
    have hdk: "\<not> isspace (hd ?k)" using collapse_hd[OF False] hd_dropWhile[OF False] by simp
    have dw: "dropWhile isspace (replicate ?n SP @ ?k) = ?k"
      using kne hdk by (cases ?k) (auto simp: isspace_SP dropWhile_append3)
    show ?thesis
      unfolding clean_line_alt str_lstrip_def str_strip_def by (simp only: dw)
  qed
qed

lemma collapse_length: "length (re_sub_spaces c) \<le> length c"
proof (induction c rule: re_sub_spaces.induct)
  case 1 show ?case by simp
next
  case (2 c cs)
  have "length (dropWhile (\<lambda>x. x = SP) cs) \<le> length cs" by (rule length_dropWhile_le)
  with 2 show ?case by (auto simp del: dropWhile_eq_Nil_conv)
qed

lemma collapse_subseq: "subseq (re_sub_spaces c) c"
proof (induction c rule: re_sub_spaces.induct)
  case 1 show ?case by simp
next
  case (2 c cs)
  have d: "subseq (dropWhile (\<lambda>x. x = SP) cs) cs"
    by (metis suffix_dropWhile suffix_imp_subseq)
  show ?case
  proof (cases "c = SP \<and> takeWhile (\<lambda>x. x = SP) cs \<noteq> []")
    case True
    with 2 have "subseq (re_sub_spaces (dropWhile (\<lambda>x. x = SP) cs)) (dropWhile (\<lambda>x. x = SP) cs)"
      by simp
    then have "subseq (re_sub_spaces (dropWhile (\<lambda>x. x = SP) cs)) cs"
      using d by (rule subseq_order.trans)
    with True show ?thesis by simp
  next
    case False
    with 2 show ?thesis by auto
  qed
qed


lemma rstrip_split: "l = takeWhile isspace (str_rstrip l) @ dropWhile isspace (str_rstrip l)
    @ rev (takeWhile isspace (rev l))"
proof -
  have "rev l = takeWhile isspace (rev l) @ dropWhile isspace (rev l)" by simp
  then have "l = rev (dropWhile isspace (rev l)) @ rev (takeWhile isspace (rev l))"
    by (metis rev_append rev_rev_ident)
  then have "l = str_rstrip l @ rev (takeWhile isspace (rev l))"
    by (simp only: str_rstrip_def)
  then have "l = (takeWhile isspace (str_rstrip l) @ dropWhile isspace (str_rstrip l))
      @ rev (takeWhile isspace (rev l))"
    by (simp only: takeWhile_dropWhile_id)
  then show ?thesis by (simp only: append_assoc)
qed

lemma clean_line_length: "length (clean_line l) \<le> length l"
proof -
  have "length l = length (takeWhile isspace (str_rstrip l))
      + length (dropWhile isspace (str_rstrip l)) + length (rev (takeWhile isspace (rev l)))"
    by (subst rstrip_split[of l]) (simp only: length_append add.assoc)
  moreover have "length (re_sub_spaces (dropWhile isspace (str_rstrip l)))
      \<le> length (dropWhile isspace (str_rstrip l))" by (rule collapse_length)
  ultimately show ?thesis by (simp add: clean_line_alt)
qed

lemma join_length: "length (str_join sep ls) = sum_list (map length ls) + (length ls - 1)"
  by (induction sep ls rule: str_join.induct) auto

lemma join_map_length:
  "(\<And>l. length (f l) \<le> length l) \<Longrightarrow> length (str_join sep (map f ls)) \<le> length (str_join sep ls)"
proof -
  assume a: "\<And>l. length (f l) \<le> length l"
  have "sum_list (map length (map f ls)) \<le> sum_list (map length ls)"
    by (induction ls) (auto intro: add_mono a)
  then show ?thesis by (simp add: join_length)
qed

lemma strip_emojis_length: "length (remove_emojis_from_text t) \<le> length t"
proof -
  have "length (remove_emojis_from_text t)
        \<le> length (str_join NL (str_split NL (EMOJI_PATTERN_sub t)))"
    unfolding remove_emojis_from_text_def Let_def
    by (rule join_map_length) (rule clean_line_length)
  also have "\<dots> = length (EMOJI_PATTERN_sub t)" by (simp add: join_split)
  also have "\<dots> \<le> length t" by (simp add: sub_filter)
  finally show ?thesis .
qed

lemma blank_out_SP: "blank_out SP = SP" by (simp add: blank_out_def)
lemma blank_out_NL: "blank_out NL = NL" by (simp add: blank_out_def)

lemma blank_out_spaces: "\<forall>c\<in>set s. isspace c \<Longrightarrow> NL \<notin> set s \<Longrightarrow> map blank_out s = replicate (length s) SP"
  by (induction s) (auto simp: blank_out_def)

lemma clean_line_subseq:
  assumes "NL \<notin> set l"
  shows "subseq (map blank_out (clean_line l)) (map blank_out l)"
proof -
  let ?a = "takeWhile isspace (str_rstrip l)"
  let ?b = "dropWhile isspace (str_rstrip l)"
  let ?c = "rev (takeWhile isspace (rev l))"
  have l: "l = ?a @ ?b @ ?c" by (rule rstrip_split)
  have "set ?a \<subseteq> set l" by (subst (2) l) auto
  with assms have "NL \<notin> set ?a" by blast
  moreover have "\<forall>c\<in>set ?a. isspace c" by (auto dest: set_takeWhileD)
  ultimately have a: "map blank_out ?a = replicate (length ?a) SP" by (intro blank_out_spaces)
  have "subseq (map blank_out (re_sub_spaces ?b)) (map blank_out ?b)"
    by (intro subseq_map collapse_subseq)
  then have "subseq (map blank_out (re_sub_spaces ?b)) (map blank_out ?b @ map blank_out ?c)"
    by (rule list_emb_prefix)
  then have "subseq (replicate (length ?a) SP @ map blank_out (re_sub_spaces ?b))
       (map blank_out ?a @ map blank_out ?b @ map blank_out ?c)"
    unfolding a by (intro list_emb_append_mono subseq_order.refl) 
  moreover have "map blank_out l = map blank_out ?a @ map blank_out ?b @ map blank_out ?c"
    by (subst l) (simp only: map_append)
  ultimately show ?thesis by (simp add: clean_line_alt blank_out_SP)
qed

lemma join_map: "map f (str_join sep ls) = str_join (f sep) (map (map f) ls)"
  by (induction sep ls rule: str_join.induct) auto

lemma join_blank_out: "map blank_out (str_join NL ls) = str_join NL (map (map blank_out) ls)"
  by (simp add: join_map blank_out_NL)

lemma join_subseq:
  "list_all2 subseq xs ys \<Longrightarrow> subseq (str_join sep xs) (str_join sep ys)"
proof (induction sep xs arbitrary: ys rule: str_join.induct)
  case (1 sep)
  then show ?case by simp
next
  case (2 sep l)
  then show ?case by (auto simp: list_all2_Cons1)
next
  case (3 sep l v va)
  from 3(2) obtain y ys' where ys: "ys = y # ys'" and ly: "subseq l y" and r: "list_all2 subseq (v # va) ys'"
    by (auto simp: list_all2_Cons1)
  from r obtain y2 ys2 where ys': "ys' = y2 # ys2" by (auto simp: list_all2_Cons1)
  from 3(1)[OF r] have "subseq (str_join sep (v # va)) (str_join sep ys')" .
  then have "subseq (sep # str_join sep (v # va)) (sep # str_join sep ys')" by simp
  with ly have "subseq (l @ sep # str_join sep (v # va)) (y @ sep # str_join sep ys')"
    by (rule list_emb_append_mono)
  then show ?case by (simp add: ys ys')
qed

lemma strip_emojis_subseq: "subseq (map blank_out (remove_emojis_from_text t)) (map blank_out t)"
proof -
  let ?Ls = "str_split NL (EMOJI_PATTERN_sub t)"
  have "subseq (map blank_out (clean_line x)) (map blank_out x)" if "x \<in> set ?Ls" for x
    using that by (intro clean_line_subseq) (rule split_nosep)
  then have "list_all2 subseq (map (map blank_out) (map clean_line ?Ls)) (map (map blank_out) ?Ls)"
    by (simp add: list_all2_map1 list_all2_map2 list_all2_same)
  then have "subseq (str_join NL (map (map blank_out) (map clean_line ?Ls)))
      (str_join NL (map (map blank_out) ?Ls))" by (rule join_subseq)
  then have "subseq (map blank_out (remove_emojis_from_text t))
      (map blank_out (str_join NL ?Ls))"
    by (simp only: remove_emojis_from_text_def Let_def join_blank_out)
  also have "subseq (map blank_out (str_join NL ?Ls)) (map blank_out t)"
    by (simp only: join_split sub_filter) (intro subseq_map subseq_filter_left)
  finally show ?thesis .
qed

lemma run_starts_skip: "run_starts True cs = run_starts False (dropWhile is_emoji cs)"
  by (induction cs) auto

lemma findall_count: "length (EMOJI_PATTERN_findall t) = run_starts False t"
  by (induction t rule: EMOJI_PATTERN_findall.induct) (auto simp: run_starts_skip)









text \<open>
  What the line loop does to the indentation: the number of leading whitespace
  characters is kept, and the indentation itself is kept when it is made of plain
  spaces only.
\<close>

lemma indentation_length_kept:
  "length (takeWhile isspace (clean_line l)) = length (takeWhile isspace (str_rstrip l))"
proof (cases "dropWhile isspace (str_rstrip l) = []")
  case True
  then have "str_rstrip l = []" using rstrip_all_space[of l] by (simp add: str_lstrip_def)
  then show ?thesis by (simp add: clean_line_alt)
next
  case False
  let ?k = "re_sub_spaces (dropWhile isspace (str_rstrip l))"
  from False have kne: "?k \<noteq> []" by (simp add: collapse_Nil_iff)
  have hdk: "\<not> isspace (hd ?k)" using collapse_hd[OF False] hd_dropWhile[OF False] by simp
  have "takeWhile isspace (replicate (length (takeWhile isspace (str_rstrip l))) SP @ ?k)
        = replicate (length (takeWhile isspace (str_rstrip l))) SP"
    using kne hdk by (cases ?k) (auto simp: isspace_SP takeWhile_tail)
  then show ?thesis by (simp add: clean_line_alt)
qed

lemma space_indentation_kept:
  assumes "\<forall>c\<in>set (takeWhile isspace (str_rstrip l)). c = SP"
  shows "clean_line l = takeWhile isspace (str_rstrip l)
           @ re_sub_spaces (dropWhile isspace (str_rstrip l))"
proof -
  from assms have "replicate (length (takeWhile isspace (str_rstrip l))) SP
      = takeWhile isspace (str_rstrip l)"
    by (intro replicate_length_same) blast
  then show ?thesis by (simp only: clean_line_alt)
qed

section \<open>The claims about the text cleaner\<close>

text \<open>
  C1. Cleaning is idempotent: cleaning a cleaned text gives the cleaned text again.
  The cleaned text holds no emoji run (the pattern finds no match in it), and in every
  line of it the content after the indentation has no two plain spaces next to each
  other.
\<close>

theorem strip_emojis_idempotent: "remove_emojis_from_text (remove_emojis_from_text t) = remove_emojis_from_text t
  \<and> EMOJI_PATTERN_findall (remove_emojis_from_text t) = []
  \<and> list_all (\<lambda>line. \<not> has_double_space (str_lstrip line))
       (str_split NL (remove_emojis_from_text t))"
proof (intro conjI)
  let ?F = remove_emojis_from_text
  have ne: "\<forall>c\<in>set (?F t). \<not> is_emoji c" using no_emoji_after by blast
  then have s: "EMOJI_PATTERN_sub (?F t) = ?F t" by (rule sub_fixed)
  have "?F (?F t) = str_join NL (map clean_line (str_split NL (?F t)))"
    by (simp add: remove_emojis_from_text_def[of "?F t"] s)
  also have "\<dots> = str_join NL (map clean_line (map clean_line (str_split NL (EMOJI_PATTERN_sub t))))"
    by (simp only: split_of_cleaned)
  also have "\<dots> = str_join NL (map clean_line (str_split NL (EMOJI_PATTERN_sub t)))"
    by (simp add: clean_line_idem comp_def)
  also have "\<dots> = ?F t" by (simp add: remove_emojis_from_text_def)
  finally show "?F (?F t) = ?F t" .
  show "EMOJI_PATTERN_findall (?F t) = []" using ne by (simp add: findall_Nil_iff)
  show "list_all (\<lambda>line. \<not> has_double_space (str_lstrip line)) (str_split NL (?F t))"
    by (simp add: split_of_cleaned list_all_iff lstrip_clean_line collapse_no_double)
qed

text \<open>
  C10. The cleaned text is never longer than the text: cleaning only deletes
  characters or puts one plain space in the place of one whitespace character. With
  every whitespace character but the newline read as a plain space, the cleaned text
  is a subsequence of the text.
\<close>

theorem strip_emojis_never_longer: "length (remove_emojis_from_text t) \<le> length t
   \<and> subseq (map blank_out (remove_emojis_from_text t)) (map blank_out t)"
  using strip_emojis_length strip_emojis_subseq by blast

text \<open>
  C2. The indentation of a line is not kept character for character: the code counts
  the leading whitespace characters and writes that many plain spaces. A line indented
  with a tab comes out indented with a space, against the comment in the code that the
  indentation is preserved. The example of the specification, indented with four
  plain spaces, comes out as the specification says.
\<close>

theorem tab_indentation_replaced:
  "remove_emojis_from_text [9, 97, 32, 32, 98] = [32, 97, 32, 98]
   \<and> remove_emojis_from_text [32, 32, 32, 32, 97, 32, 32, 98] = [32, 32, 32, 32, 97, 32, 98]"
  by (simp add: remove_emojis_from_text_def clean_line_def str_rstrip_def str_lstrip_def
      str_strip_def is_emoji_def EMOJI_RANGES_def isspace_def WHITESPACE_def)

text \<open>
  C3. The count that is reported is the number of maximal runs of emoji code points,
  not the number of emoji code points: the number of matches of the pattern equals
  the number of code points that start a run. The empty text has none, the example
  of the specification has one run and is cleaned to \<^verbatim>\<open>Hello World\<close>, and three emoji
  code points in a row count as one.
\<close>

theorem count_matches_counts_runs:
  "emoji_count_of t = maximal_runs t
   \<and> emoji_count_of [] = 0
   \<and> emoji_count_of [72, 101, 108, 108, 111, 32, 0x1F389, 32, 32, 87, 111, 114, 108, 100] = 1
   \<and> remove_emojis_from_text
        [72, 101, 108, 108, 111, 32, 0x1F389, 32, 32, 87, 111, 114, 108, 100]
      = [72, 101, 108, 108, 111, 32, 87, 111, 114, 108, 100]
   \<and> emoji_count_of [0x1F389, 0x1F389, 0x1F389] = 1"
proof (intro conjI)
  show "emoji_count_of t = maximal_runs t"
    by (simp add: emoji_count_of_def maximal_runs_def findall_count)
  show "emoji_count_of [] = 0"
    by (simp add: emoji_count_of_def)
  show "emoji_count_of [72, 101, 108, 108, 111, 32, 0x1F389, 32, 32, 87, 111, 114, 108, 100] = 1"
    by (simp add: emoji_count_of_def is_emoji_def EMOJI_RANGES_def)
  show "remove_emojis_from_text
        [72, 101, 108, 108, 111, 32, 0x1F389, 32, 32, 87, 111, 114, 108, 100]
      = [72, 101, 108, 108, 111, 32, 87, 111, 114, 108, 100]"
    by (simp add: remove_emojis_from_text_def clean_line_def str_rstrip_def str_lstrip_def
      str_strip_def is_emoji_def EMOJI_RANGES_def isspace_def WHITESPACE_def)
  show "emoji_count_of [0x1F389, 0x1F389, 0x1F389] = 1"
    by (simp add: emoji_count_of_def is_emoji_def EMOJI_RANGES_def)
qed



section \<open>Facts about processing a file and about the run\<close>

lemma count_pos_changes: "emoji_count_of t \<noteq> 0 \<Longrightarrow> remove_emojis_from_text t \<noteq> t"
proof
  assume c: "emoji_count_of t \<noteq> 0" and e: "remove_emojis_from_text t = t"
  from c have "EMOJI_PATTERN_findall t \<noteq> []" by (simp add: emoji_count_of_def)
  then obtain x where "x \<in> set t" "is_emoji x" by (auto simp: findall_Nil_iff)
  moreover have "\<forall>x\<in>set (remove_emojis_from_text t). \<not> is_emoji x"
    using no_emoji_after by blast
  ultimately show False using e by simp
qed

lemma process_body_cases:
  "process_body fs p d =
     (case read_text fs p of
        Inl e \<Rightarrow> Inl e
      | Inr t \<Rightarrow>
          if emoji_count_of t = 0 then Inr (fs, False, 0)
          else if d then Inr (fs, True, emoji_count_of t)
          else (case write_text fs p (remove_emojis_from_text t) of
                  Inl e \<Rightarrow> Inl e
                | Inr fs' \<Rightarrow> Inr (fs', True, emoji_count_of t)))"
proof -
  have "t \<noteq> remove_emojis_from_text t" if "emoji_count_of t \<noteq> 0" for t
    using count_pos_changes[OF that] by (rule not_sym)
  then show ?thesis
    by (auto simp: process_body_def Let_def split: sum.splits)
qed

lemma process_agree: "(\<not> fst (snd (process_markdown_file w p d))) = (snd (snd (process_markdown_file w p d)) = 0)"
  by (auto simp: process_markdown_file_def process_body_cases split: sum.splits)








lemma dry_value: "read_text (files w) p = Inr t \<Longrightarrow>
   snd (process_markdown_file w p True) = (emoji_count_of t \<noteq> 0, emoji_count_of t)"
  by (auto simp: process_markdown_file_def process_body_cases split: sum.splits)






lemma rglob_under_root: "p \<in> set (rglob_md fs root) \<Longrightarrow> prefix root p"
  by (auto simp: rglob_md_def strict_prefix_def)

lemma find_set:
  "set (find_markdown_files fs root ex) =
     {p \<in> fst ` set fs. strict_prefix root p \<and> endswith_md (last p)
        \<and> (\<forall>e\<in>set (case ex of None \<Rightarrow> DEFAULT_EXCLUDE_DIRS | Some e \<Rightarrow> e). e \<notin> set p)}"
  by (auto simp: find_markdown_files_def rglob_md_def list_ex_iff Let_def)

lemma find_sorted: "sorted (find_markdown_files fs root ex)"
  by (simp add: find_markdown_files_def Let_def)


text \<open>Nothing below a directory with an excluded name is returned.\<close>

lemma excluded_never_returned:
  "e \<in> set (case ex of None \<Rightarrow> DEFAULT_EXCLUDE_DIRS | Some e \<Rightarrow> e) \<Longrightarrow> e \<in> set p
   \<Longrightarrow> p \<notin> set (find_markdown_files fs root ex)"
  by (auto simp: find_set)

lemma node_modules_never_returned:
  "''node_modules'' \<in> set p \<Longrightarrow> p \<notin> set (find_markdown_files fs root None)"
  by (rule excluded_never_returned[of "''node_modules''"]) (simp_all add: DEFAULT_EXCLUDE_DIRS_def)


section \<open>The claims about the file walker\<close>





text \<open>
  C7. In the pair that \<^verbatim>\<open>process_markdown_file\<close> returns, whatever the world, the
  path and the mode, \<^verbatim>\<open>changed\<close> is false exactly when the count is zero. This covers
  every return, the one of the \<^verbatim>\<open>except\<close> branch too.
\<close>

theorem changed_agrees_with_count: "(\<not> fst (snd (process_markdown_file w p d))) = (snd (snd (process_markdown_file w p d)) = 0)"
  by (rule process_agree)



text \<open>
  C9. The list that \<^verbatim>\<open>find_markdown_files\<close> returns can hold a path that is not a
  file: \<^verbatim>\<open>rglob\<close> yields every entry whose name matches, and nothing filters the
  directories out. Here the only entry below the root is a directory named
  \<^verbatim>\<open>notes.md\<close>, and it is returned.
\<close>

theorem discover_returns_directory:
  "find_markdown_files [([''proj'', ''notes.md''], Directory)] [''proj''] None
     = [[''proj'', ''notes.md'']]
   \<and> map_of [([''proj'', ''notes.md''], Directory)] [''proj'', ''notes.md''] = Some Directory"
  by (simp add: find_markdown_files_def rglob_md_def endswith_md_def DEFAULT_EXCLUDE_DIRS_def)

end
